theory Spec2Isabelle
  imports Main
begin

section \<open>Values of the program\<close>

text \<open>
  The program is a single TypeScript file, \<^verbatim>\<open>app.ts\<close>. Its strings are modelled as
  \<^typ>\<open>string\<close>, one \<^typ>\<open>char\<close> per code unit, so that \<^verbatim>\<open>.length\<close> is
  \<^const>\<open>length\<close>. Its numbers are modelled on the integer-valued fragment together
  with \<^verbatim>\<open>NaN\<close> (what \<^verbatim>\<open>Number(...)\<close> gives for a field that is not numeric):
  every comparison with \<^verbatim>\<open>NaN\<close> is false, as in the language. Fractions and the
  infinities are left out.
\<close>

datatype number = NaN | Num int

fun gt_number :: "number \<Rightarrow> number \<Rightarrow> bool" where
  "gt_number (Num a) (Num b) = (a > b)"
| "gt_number _ _ = False"

fun lt_number :: "number \<Rightarrow> number \<Rightarrow> bool" where
  "lt_number (Num a) (Num b) = (a < b)"
| "lt_number _ _ = False"

text \<open>\<^verbatim>\<open>value: string | number\<close>: a value is a string or a number, and
  \<^verbatim>\<open>typeof\<close> tells which.\<close>

datatype val = Str string | Number number

subsection \<open>\<^verbatim>\<open>toString\<close> and \<^verbatim>\<open>trim\<close>\<close>

text \<open>The string of an integer is its decimal digits, with a minus sign when it is
  negative. (From \<open>10\<^sup>2\<^sup>1\<close> on the language prints an exponent; validation only
  asks whether the string is blank.)\<close>

definition digit_char :: "nat \<Rightarrow> char" where
  "digit_char d = ''0123456789'' ! (d mod 10)"

fun digits :: "nat \<Rightarrow> string" where
  "digits n = (if n < 10 then [digit_char n] else digits (n div 10) @ [digit_char (n mod 10)])"

declare digits.simps [simp del]

fun toString_number :: "number \<Rightarrow> string" where
  "toString_number NaN = ''NaN''"
| "toString_number (Num i) = (if i < 0 then CHR ''-'' # digits (nat (- i)) else digits (nat i))"

fun toString :: "val \<Rightarrow> string" where
  "toString (Str s) = s"
| "toString (Number n) = toString_number n"

text \<open>White space and line terminators that \<^verbatim>\<open>String.prototype.trim\<close> strips, among
  the code units below 256: TAB, LF, VT, FF, CR, SP and NBSP.\<close>

definition isWhiteSpace :: "char \<Rightarrow> bool" where
  "isWhiteSpace c = (c \<in> set [CHR 0x09, CHR 0x0A, CHR 0x0B, CHR 0x0C, CHR 0x0D, CHR 0x20, CHR 0xA0])"

definition trim :: "string \<Rightarrow> string" where
  "trim s = rev (dropWhile isWhiteSpace (rev (dropWhile isWhiteSpace s)))"

section \<open>Validation\<close>

text \<open>
  \<^verbatim>\<open>interface Validatable\<close>: the value and five optional constraints. An optional
  field that is absent (\<^verbatim>\<open>undefined\<close>) is \<^const>\<open>None\<close>. The fields \<^verbatim>\<open>value\<close>,
  \<^verbatim>\<open>min\<close> and \<^verbatim>\<open>max\<close> carry a suffix, their names being taken in HOL.
\<close>

record Validatable =
  value_V :: val
  required :: "bool option"
  minLength :: "number option"
  maxLength :: "number option"
  min_V :: "number option"
  max_V :: "number option"

text \<open>
  \<^verbatim>\<open>validateInput\<close>, statement by statement: \<^verbatim>\<open>isValid\<close> starts true and each
  \<^verbatim>\<open>if\<close> whose guard holds conjoins one test to it. The guard \<^verbatim>\<open>if (v.required)\<close>
  is a truthiness test, so only \<^verbatim>\<open>true\<close> passes it; \<^verbatim>\<open>!= null\<close> holds of every
  number, zero and \<^verbatim>\<open>NaN\<close> included; \<^verbatim>\<open>typeof v.value === 'string'\<close> is the
  case distinction on \<^typ>\<open>val\<close>.
\<close>

definition validateInput :: "Validatable \<Rightarrow> bool" where
  "validateInput validatableInput =
     (let isValid = True;
          isValid = (if required validatableInput = Some True
                     then isValid \<and> length (trim (toString (value_V validatableInput))) \<noteq> 0
                     else isValid);
          isValid = (case (minLength validatableInput, value_V validatableInput) of
                       (Some m, Str s) \<Rightarrow> isValid \<and> gt_number (Num (int (length s))) m
                     | _ \<Rightarrow> isValid);
          isValid = (case (maxLength validatableInput, value_V validatableInput) of
                       (Some m, Str s) \<Rightarrow> isValid \<and> lt_number (Num (int (length s))) m
                     | _ \<Rightarrow> isValid);
          isValid = (case (min_V validatableInput, value_V validatableInput) of
                       (Some m, Number n) \<Rightarrow> isValid \<and> gt_number n m
                     | _ \<Rightarrow> isValid);
          isValid = (case (max_V validatableInput, value_V validatableInput) of
                       (Some m, Number n) \<Rightarrow> isValid \<and> lt_number n m
                     | _ \<Rightarrow> isValid)
      in isValid)"

section \<open>Projects and the project state\<close>

datatype ProjectStatus = Active | Finished

text \<open>\<^verbatim>\<open>class Project\<close>; the field \<^verbatim>\<open>id\<close> carries a suffix.\<close>

record Project =
  id_P :: string
  title :: string
  description :: string
  people :: number
  status :: ProjectStatus

text \<open>
  \<^verbatim>\<open>type Listener<T> = (items: T[]) => void\<close>. A listener is a callback of the view
  layer; the store only keeps it and calls it. Called with an array, the callback
  returns or throws: a listener is modelled by its identity, of an arbitrary type
  \<^typ>\<open>'l\<close>, and by which of the two it does on each array. Listeners are taken not
  to call back into the store and not to change the projects they are passed, as the
  two list views of the program do.
\<close>

datatype outcome = Returns | Throws

type_synonym 'l Listener = "'l \<times> (Project list \<Rightarrow> outcome)"

text \<open>A listener that always returns, and one that always throws.\<close>

definition quiet :: "'l \<Rightarrow> 'l Listener" where
  "quiet l = (l, \<lambda>items. Returns)"

definition failing :: "'l \<Rightarrow> 'l Listener" where
  "failing l = (l, \<lambda>items. Throws)"

text \<open>
  \<^verbatim>\<open>class ProjectState extends State<Project>\<close>. What the store does to the outside
  is to call listeners: the field \<open>notified\<close> records it, one entry for each run of
  \<^verbatim>\<open>updateListeners\<close>, the entry listing the calls of that run in the order they
  are made, each with the listener called, the array passed and how the call ended.
  Calls are synchronous: a call has ended when the next one is made.
\<close>

type_synonym 'l call = "'l \<times> Project list \<times> outcome"

record 'l ProjectState =
  listeners :: "'l Listener list"
  projects :: "Project list"
  notified :: "'l call list list"

text \<open>The private constructor, reached once through \<^verbatim>\<open>getInstance\<close>.\<close>

definition new_ProjectState :: "'l ProjectState" where
  "new_ProjectState = \<lparr>listeners = [], projects = [], notified = []\<rparr>"

definition addListener :: "'l Listener \<Rightarrow> 'l ProjectState \<Rightarrow> 'l ProjectState" where
  "addListener listenerFn st = st\<lparr>listeners := listeners st @ [listenerFn]\<rparr>"

text \<open>\<^verbatim>\<open>slice()\<close> copies the array; on values a copy is the list itself. (Who shares
  what is the subject of the reference model further down.)\<close>

definition slice :: "'a list \<Rightarrow> 'a list" where
  "slice xs = xs"

text \<open>
  The loop of \<^verbatim>\<open>updateListeners\<close>. Nothing catches what a listener throws: the
  loop ends at the first call that throws, the listeners after it are not called, and
  the exception leaves \<^verbatim>\<open>updateListeners\<close> and the operation of the store that
  called it. What the operation had done to the store before stays done.
\<close>

fun call_listeners :: "'l Listener list \<Rightarrow> Project list \<Rightarrow> 'l call list" where
  "call_listeners [] ps = []"
| "call_listeners (listenerFn # rest) ps =
     (case snd listenerFn (slice ps) of
        Returns \<Rightarrow> (fst listenerFn, slice ps, Returns) # call_listeners rest ps
      | Throws \<Rightarrow> [(fst listenerFn, slice ps, Throws)])"

definition updateListeners :: "'l ProjectState \<Rightarrow> 'l ProjectState" where
  "updateListeners st =
     st\<lparr>notified := notified st @ [call_listeners (listeners st) (projects st)]\<rparr>"

text \<open>A run of calls returned when none of its calls threw; otherwise the operation
  that made the run was left by the exception.\<close>

definition returned :: "'l call list \<Rightarrow> bool" where
  "returned calls = list_all (\<lambda>c. snd (snd c) = Returns) calls"

text \<open>
  \<^verbatim>\<open>addProject\<close>. The identifier is \<^verbatim>\<open>Math.random().toString()\<close>; the string
  drawn is the parameter \<open>rnd\<close>.
\<close>

definition addProject ::
  "string \<Rightarrow> string \<Rightarrow> string \<Rightarrow> number \<Rightarrow> 'l ProjectState \<Rightarrow> 'l ProjectState" where
  "addProject rnd projectName projectDescription numPeople st =
     (let newProject = \<lparr>id_P = rnd, title = projectName, description = projectDescription,
                        people = numPeople, status = Active\<rparr>;
          st = st\<lparr>projects := projects st @ [newProject]\<rparr>
      in updateListeners st)"

text \<open>
  \<^verbatim>\<open>moveProject\<close>. \<^verbatim>\<open>find\<close> returns a reference to the first element that
  satisfies the test; here the reference is the element's position, and the
  assignment \<^verbatim>\<open>project.status = newStatus\<close> updates the list at that position.
\<close>

fun find_pos :: "('a \<Rightarrow> bool) \<Rightarrow> 'a list \<Rightarrow> nat option" where
  "find_pos P [] = None"
| "find_pos P (x # xs) = (if P x then Some 0 else map_option Suc (find_pos P xs))"

definition moveProject :: "string \<Rightarrow> ProjectStatus \<Rightarrow> 'l ProjectState \<Rightarrow> 'l ProjectState" where
  "moveProject projectId newStatus st =
     (case find_pos (\<lambda>project. id_P project = projectId) (projects st) of
        None \<Rightarrow> st
      | Some i \<Rightarrow>
          (let project = projects st ! i
           in if status project \<noteq> newStatus
              then updateListeners
                     (st\<lparr>projects := (projects st)[i := project\<lparr>status := newStatus\<rparr>]\<rparr>)
              else st))"

section \<open>The input form\<close>

text \<open>
  \<^verbatim>\<open>class ProjectInput\<close>: the three input elements, each by its \<^verbatim>\<open>value\<close>. The
  application is the store, the form and the alerts shown so far.
  \<^verbatim>\<open>Number(...)\<close>, which reads the people field, is the parameter \<open>Number_of\<close>.
\<close>

record ProjectInput =
  titleInputElement :: string
  descInputElement :: string
  peopleInputElement :: string

record 'l App =
  projectState :: "'l ProjectState"
  projectInput :: ProjectInput
  alerts :: "string list"

definition getUserInput ::
  "(string \<Rightarrow> number) \<Rightarrow> 'l App \<Rightarrow> (string \<times> string \<times> number) option \<times> 'l App" where
  "getUserInput Number_of app =
     (let title = titleInputElement (projectInput app);
          description = descInputElement (projectInput app);
          people = Number_of (peopleInputElement (projectInput app));
          titleValidatable =
            \<lparr>value_V = Str title, required = Some True, minLength = None,
             maxLength = None, min_V = None, max_V = None\<rparr>;
          descriptionValidatable =
            \<lparr>value_V = Str description, required = Some True, minLength = Some (Num 5),
             maxLength = None, min_V = None, max_V = None\<rparr>;
          peopleValidatable =
            \<lparr>value_V = Number people, required = Some True, minLength = None,
             maxLength = None, min_V = Some (Num 1), max_V = Some (Num 5)\<rparr>
      in if \<not> validateInput titleValidatable \<and>
            \<not> validateInput descriptionValidatable \<and>
            \<not> validateInput peopleValidatable
         then (None, app\<lparr>alerts := alerts app @ [''Input is invalid. Please try again.'']\<rparr>)
         else (Some (title, description, people), app))"

definition clearUserInput :: "'l App \<Rightarrow> 'l App" where
  "clearUserInput app =
     app\<lparr>projectInput := \<lparr>titleInputElement = [], descInputElement = [],
                            peopleInputElement = []\<rparr>\<rparr>"

text \<open>\<^verbatim>\<open>submitHandler\<close>; \<open>rnd\<close> is the string \<^verbatim>\<open>addProject\<close> draws, if it is
  called. When a listener throws in \<^verbatim>\<open>addProject\<close> (the run of calls it made is the
  last one recorded), the exception leaves the handler too and the form is not
  cleared.\<close>

definition submitHandler :: "(string \<Rightarrow> number) \<Rightarrow> string \<Rightarrow> 'l App \<Rightarrow> 'l App" where
  "submitHandler Number_of rnd app =
     (case getUserInput Number_of app of
        (None, app) \<Rightarrow> app
      | (Some (t, d, p), app) \<Rightarrow>
          (let app = app\<lparr>projectState := addProject rnd t d p (projectState app)\<rparr>
           in if returned (last (notified (projectState app)))
              then clearUserInput app
              else app))"

text \<open>Store operations in sequence.\<close>

datatype 'l operation =
  AddListener "'l Listener"
| AddProject string string string number
| MoveProject string ProjectStatus

fun apply_operation :: "'l operation \<Rightarrow> 'l ProjectState \<Rightarrow> 'l ProjectState" where
  "apply_operation (AddListener listenerFn) st = addListener listenerFn st"
| "apply_operation (AddProject rnd t d n) st = addProject rnd t d n st"
| "apply_operation (MoveProject projectId newStatus) st = moveProject projectId newStatus st"

fun run :: "'l operation list \<Rightarrow> 'l ProjectState \<Rightarrow> 'l ProjectState" where
  "run [] st = st"
| "run (op # ops) st = run ops (apply_operation op st)"

section \<open>The specification's reading of validation\<close>

text \<open>
  The specification describes the validation predicate constraint by constraint: a
  constraint that is absent, or that does not apply to the type of the value, holds;
  the four bounds are strict; the result is the conjunction. These definitions follow
  its words, to be compared with \<^const>\<open>validateInput\<close>. A bound that is
  \<^verbatim>\<open>NaN\<close> is present and holds of nothing.
\<close>

definition required_holds :: "Validatable \<Rightarrow> bool" where
  "required_holds v =
     (case required v of
        Some True \<Rightarrow> trim (toString (value_V v)) \<noteq> []
      | _ \<Rightarrow> True)"

definition minLength_holds :: "Validatable \<Rightarrow> bool" where
  "minLength_holds v =
     (case (minLength v, value_V v) of
        (Some (Num m), Str s) \<Rightarrow> int (length s) > m
      | (Some NaN, Str s) \<Rightarrow> False
      | _ \<Rightarrow> True)"

definition maxLength_holds :: "Validatable \<Rightarrow> bool" where
  "maxLength_holds v =
     (case (maxLength v, value_V v) of
        (Some (Num m), Str s) \<Rightarrow> int (length s) < m
      | (Some NaN, Str s) \<Rightarrow> False
      | _ \<Rightarrow> True)"

definition min_holds :: "Validatable \<Rightarrow> bool" where
  "min_holds v =
     (case (min_V v, value_V v) of
        (Some (Num m), Number (Num n)) \<Rightarrow> n > m
      | (Some m, Number n) \<Rightarrow> False
      | _ \<Rightarrow> True)"

definition max_holds :: "Validatable \<Rightarrow> bool" where
  "max_holds v =
     (case (max_V v, value_V v) of
        (Some (Num m), Number (Num n)) \<Rightarrow> n < m
      | (Some m, Number n) \<Rightarrow> False
      | _ \<Rightarrow> True)"

definition spec_valid :: "Validatable \<Rightarrow> bool" where
  "spec_valid v =
     (required_holds v \<and> minLength_holds v \<and> maxLength_holds v \<and> min_holds v \<and> max_holds v)"

section \<open>Auxiliary definitions for the statements\<close>

text \<open>The strings drawn by the \<^verbatim>\<open>addProject\<close> calls of a sequence, in order.\<close>

fun draws :: "'l operation list \<Rightarrow> string list" where
  "draws [] = []"
| "draws (AddProject rnd t d n # ops) = rnd # draws ops"
| "draws (op # ops) = draws ops"

text \<open>A store with two listeners and two projects, for concrete instances.\<close>

definition two_projects :: "nat ProjectState" where
  "two_projects =
     \<lparr>listeners = [quiet 1, quiet 2],
      projects = [\<lparr>id_P = ''0.1'', title = ''Build shed'', description = ''Outdoor storage'',
                   people = Num 2, status = Active\<rparr>,
                  \<lparr>id_P = ''0.2'', title = ''Paint'', description = ''Fence and gate'',
                   people = Num 3, status = Finished\<rparr>],
      notified = []\<rparr>"

text \<open>The three constraint sets that \<^verbatim>\<open>getUserInput\<close> builds.\<close>

definition titleValidatable :: "string \<Rightarrow> Validatable" where
  "titleValidatable title_in =
     \<lparr>value_V = Str title_in, required = Some True, minLength = None,
      maxLength = None, min_V = None, max_V = None\<rparr>"

definition descriptionValidatable :: "string \<Rightarrow> Validatable" where
  "descriptionValidatable description_in =
     \<lparr>value_V = Str description_in, required = Some True, minLength = Some (Num 5),
      maxLength = None, min_V = None, max_V = None\<rparr>"

definition peopleValidatable :: "number \<Rightarrow> Validatable" where
  "peopleValidatable people_in =
     \<lparr>value_V = Number people_in, required = Some True, minLength = None,
      maxLength = None, min_V = Some (Num 1), max_V = Some (Num 5)\<rparr>"

section \<open>The store on references\<close>

text \<open>
  Arrays and \<^verbatim>\<open>Project\<close> objects are reached through references, and
  \<^verbatim>\<open>slice()\<close> copies an array, not the objects in it. Where a property depends
  on who shares what, the store is modelled on a memory: a map from references to
  \<^verbatim>\<open>Project\<close> objects, a map from references to arrays of references, and the
  next reference to be allocated. The store holds the reference of its array
  (\<^verbatim>\<open>this.projects\<close>, never reassigned); what is recorded of a call to a
  listener is the listener called and the reference of the array passed.
\<close>

type_synonym ref = nat

record 'l Memory =
  objects :: "ref \<Rightarrow> Project option"
  arrays :: "ref \<Rightarrow> ref list option"
  next_ref :: ref
  projects_ref :: ref
  listeners_ref :: "'l Listener list"
  delivered :: "('l \<times> ref) list"

definition array_at :: "'l Memory \<Rightarrow> ref \<Rightarrow> ref list" where
  "array_at m a = (case arrays m a of Some rs \<Rightarrow> rs | None \<Rightarrow> [])"

text \<open>What a reader of the array \<open>a\<close> sees: the objects its elements refer to.\<close>

fun read_refs :: "(ref \<Rightarrow> Project option) \<Rightarrow> ref list \<Rightarrow> Project list" where
  "read_refs h [] = []"
| "read_refs h (r # rs) = (case h r of Some p \<Rightarrow> p # read_refs h rs | None \<Rightarrow> read_refs h rs)"

definition read_array :: "'l Memory \<Rightarrow> ref \<Rightarrow> Project list" where
  "read_array m a = read_refs (objects m) (array_at m a)"

text \<open>The new store: an empty array of its own and no listener.\<close>

definition new_Memory :: "'l Memory" where
  "new_Memory = \<lparr>objects = Map.empty, arrays = [0 \<mapsto> []], next_ref = 1, projects_ref = 0,
                  listeners_ref = [], delivered = []\<rparr>"

definition addListener_ref :: "'l Listener \<Rightarrow> 'l Memory \<Rightarrow> 'l Memory" where
  "addListener_ref listenerFn m = m\<lparr>listeners_ref := listeners_ref m @ [listenerFn]\<rparr>"

text \<open>\<^verbatim>\<open>slice()\<close>: a new array with the same elements.\<close>

definition slice_ref :: "ref \<Rightarrow> 'l Memory \<Rightarrow> ref \<times> 'l Memory" where
  "slice_ref a m =
     (next_ref m,
      m\<lparr>arrays := (arrays m)(next_ref m \<mapsto> array_at m a), next_ref := Suc (next_ref m)\<rparr>)"

text \<open>The loop of \<^verbatim>\<open>updateListeners\<close>: each listener is called with a copy of its
  own, and the loop ends at the first call that throws.\<close>

fun call_listeners_ref :: "'l Listener list \<Rightarrow> 'l Memory \<Rightarrow> 'l Memory" where
  "call_listeners_ref [] m = m"
| "call_listeners_ref (listenerFn # rest) m =
     (let (copy, m) = slice_ref (projects_ref m) m;
          m = m\<lparr>delivered := delivered m @ [(fst listenerFn, copy)]\<rparr>
      in case snd listenerFn (read_array m copy) of
           Returns \<Rightarrow> call_listeners_ref rest m
         | Throws \<Rightarrow> m)"

definition updateListeners_ref :: "'l Memory \<Rightarrow> 'l Memory" where
  "updateListeners_ref m = call_listeners_ref (listeners_ref m) m"

text \<open>\<^verbatim>\<open>new Project(...)\<close> allocates the object; \<^verbatim>\<open>push\<close> extends the store's
  array in place.\<close>

definition addProject_ref ::
  "string \<Rightarrow> string \<Rightarrow> string \<Rightarrow> number \<Rightarrow> 'l Memory \<Rightarrow> 'l Memory" where
  "addProject_ref rnd projectName projectDescription numPeople m =
     (let newProject = next_ref m;
          m = m\<lparr>objects := (objects m)(newProject \<mapsto>
                   \<lparr>id_P = rnd, title = projectName, description = projectDescription,
                    people = numPeople, status = Active\<rparr>),
                next_ref := Suc (next_ref m)\<rparr>;
          m = m\<lparr>arrays := (arrays m)(projects_ref m \<mapsto>
                   array_at m (projects_ref m) @ [newProject])\<rparr>
      in updateListeners_ref m)"

text \<open>\<^verbatim>\<open>find\<close> returns the reference of the first element whose object has the
  identifier; the assignment changes that object.\<close>

definition has_id :: "'l Memory \<Rightarrow> string \<Rightarrow> ref \<Rightarrow> bool" where
  "has_id m projectId r = (case objects m r of Some p \<Rightarrow> id_P p = projectId | None \<Rightarrow> False)"

definition moveProject_ref :: "string \<Rightarrow> ProjectStatus \<Rightarrow> 'l Memory \<Rightarrow> 'l Memory" where
  "moveProject_ref projectId newStatus m =
     (case find (has_id m projectId) (array_at m (projects_ref m)) of
        None \<Rightarrow> m
      | Some project \<Rightarrow>
          (case objects m project of
             None \<Rightarrow> m
           | Some p \<Rightarrow>
               if status p \<noteq> newStatus
               then updateListeners_ref
                      (m\<lparr>objects := (objects m)(project \<mapsto> p\<lparr>status := newStatus\<rparr>)\<rparr>)
               else m))"

fun apply_operation_ref :: "'l operation \<Rightarrow> 'l Memory \<Rightarrow> 'l Memory" where
  "apply_operation_ref (AddListener listenerFn) m = addListener_ref listenerFn m"
| "apply_operation_ref (AddProject rnd t d n) m = addProject_ref rnd t d n m"
| "apply_operation_ref (MoveProject projectId newStatus) m = moveProject_ref projectId newStatus m"

fun run_ref :: "'l operation list \<Rightarrow> 'l Memory \<Rightarrow> 'l Memory" where
  "run_ref [] m = m"
| "run_ref (op # ops) m = run_ref ops (apply_operation_ref op m)"

text \<open>
  What a listener can do with an array \<open>a\<close> it was given: change the array itself
  (\<^verbatim>\<open>a.push(r)\<close>, \<^verbatim>\<open>a.pop()\<close>, \<^verbatim>\<open>a[i] = r\<close>, \<^verbatim>\<open>a.length = 0\<close>,
  \<^verbatim>\<open>a.splice(...)\<close>: its elements become \<open>f\<close> of what they were), or assign to
  the fields of an object through it (\<^verbatim>\<open>a[i].status = newStatus\<close> and the like: the
  object becomes \<open>g\<close> of what it was; nothing happens to the memory when \<^verbatim>\<open>a[i]\<close>
  is not an object).
\<close>

definition assign_array :: "ref \<Rightarrow> (ref list \<Rightarrow> ref list) \<Rightarrow> 'l Memory \<Rightarrow> 'l Memory" where
  "assign_array a f m = m\<lparr>arrays := (arrays m)(a \<mapsto> f (array_at m a))\<rparr>"

definition assign_element ::
  "ref \<Rightarrow> nat \<Rightarrow> (Project \<Rightarrow> Project) \<Rightarrow> 'l Memory \<Rightarrow> 'l Memory" where
  "assign_element a i g m =
     (if i < length (array_at m a)
      then (case objects m (array_at m a ! i) of
              None \<Rightarrow> m
            | Some p \<Rightarrow> m\<lparr>objects := (objects m)(array_at m a ! i \<mapsto> g p)\<rparr>)
      else m)"

definition assign_status :: "ref \<Rightarrow> nat \<Rightarrow> ProjectStatus \<Rightarrow> 'l Memory \<Rightarrow> 'l Memory" where
  "assign_status a i newStatus m = assign_element a i (\<lambda>p. p\<lparr>status := newStatus\<rparr>) m"

text \<open>
  What can happen to the memory, step by step: an operation of the store, or the
  listener of the \<open>k\<close>-th call made so far changing the array it was passed then, or
  an object in it.
\<close>

datatype 'l step =
  Store "'l operation"
| Listener_array nat "ref list \<Rightarrow> ref list"
| Listener_element nat nat "Project \<Rightarrow> Project"

fun apply_step :: "'l step \<Rightarrow> 'l Memory \<Rightarrow> 'l Memory" where
  "apply_step (Store op) m = apply_operation_ref op m"
| "apply_step (Listener_array k f) m =
     (if k < length (delivered m) then assign_array (snd (delivered m ! k)) f m else m)"
| "apply_step (Listener_element k i g) m =
     (if k < length (delivered m) then assign_element (snd (delivered m ! k)) i g m else m)"

fun run_steps :: "'l step list \<Rightarrow> 'l Memory \<Rightarrow> 'l Memory" where
  "run_steps [] m = m"
| "run_steps (x # xs) m = run_steps xs (apply_step x m)"

text \<open>Every array passed to a listener was allocated for that call: it is not the
  store's array and it was passed once.\<close>

definition fresh_copies :: "'l Memory \<Rightarrow> bool" where
  "fresh_copies m =
     (projects_ref m < next_ref m
      \<and> list_all (\<lambda>c. snd c < next_ref m \<and> snd c \<noteq> projects_ref m) (delivered m)
      \<and> distinct (map snd (delivered m)))"

text \<open>The store's array holds references of objects, each once.\<close>

definition store_array_ok :: "'l Memory \<Rightarrow> bool" where
  "store_array_ok m =
     (projects_ref m < next_ref m
      \<and> list_all (\<lambda>r. r < next_ref m \<and> objects m r \<noteq> None) (array_at m (projects_ref m))
      \<and> distinct (array_at m (projects_ref m)))"

text \<open>Two listeners, then one project created: each listener got an array.\<close>

definition shared_steps :: "nat step list" where
  "shared_steps =
     [Store (AddListener (quiet 1)), Store (AddListener (quiet 2)),
      Store (AddProject ''0.1'' ''Build shed'' ''Outdoor storage'' (Num 2))]"

definition shared_example :: "nat Memory" where
  "shared_example = run_steps shared_steps new_Memory"

section \<open>Properties of validation\<close>

lemma mem_dropWhile: "c \<in> set s \<Longrightarrow> \<not> P c \<Longrightarrow> c \<in> set (dropWhile P s)"
  by (induction s) auto

lemma trim_nonempty_iff: "(trim s \<noteq> []) = (\<exists>c \<in> set s. \<not> isWhiteSpace c)"
proof
  assume "trim s \<noteq> []"
  then obtain c where "c \<in> set (dropWhile isWhiteSpace s)" "\<not> isWhiteSpace c"
    unfolding trim_def by (auto simp: dropWhile_eq_Nil_conv)
  then show "\<exists>c \<in> set s. \<not> isWhiteSpace c"
    by (auto dest: set_dropWhileD)
next
  assume "\<exists>c \<in> set s. \<not> isWhiteSpace c"
  then obtain c where "c \<in> set s" "\<not> isWhiteSpace c" by blast
  then have "c \<in> set (rev (dropWhile isWhiteSpace s))"
    by (simp add: mem_dropWhile)
  then have "c \<in> set (dropWhile isWhiteSpace (rev (dropWhile isWhiteSpace s)))"
    using \<open>\<not> isWhiteSpace c\<close> by (rule mem_dropWhile)
  then have "dropWhile isWhiteSpace (rev (dropWhile isWhiteSpace s)) \<noteq> []"
    by (cases "dropWhile isWhiteSpace (rev (dropWhile isWhiteSpace s))") simp_all
  then show "trim s \<noteq> []"
    unfolding trim_def by (simp only: rev_is_Nil_conv not_False_eq_True)
qed

lemma digit_char_digit: "digit_char k \<in> set ''0123456789''"
  unfolding digit_char_def by (rule nth_mem) simp

lemma digits_chars: "c \<in> set (digits n) \<Longrightarrow> c \<in> set ''0123456789''"
proof (induction n rule: digits.induct)
  case (1 n)
  show ?case
  proof (cases "n < 10")
    case True
    with 1(2) have "c = digit_char n" by (subst (asm) digits.simps) simp
    then show ?thesis by (simp only: digit_char_digit)
  next
    case False
    with 1(2) have "c \<in> set (digits (n div 10)) \<or> c = digit_char (n mod 10)"
      by (subst (asm) digits.simps) auto
    then show ?thesis using 1(1) [OF False] by (auto simp only: digit_char_digit)
  qed
qed

lemma digits_nonempty: "digits n \<noteq> []"
  by (subst digits.simps) simp

lemma digit_not_space: "c \<in> set ''0123456789'' \<Longrightarrow> \<not> isWhiteSpace c"
  unfolding isWhiteSpace_def by auto

text \<open>The string of a number is never blank: every number passes \<^verbatim>\<open>required\<close>.\<close>

lemma toString_number_trim: "trim (toString_number n) \<noteq> []"
proof (cases n)
  case NaN
  then show ?thesis by (simp add: trim_def isWhiteSpace_def)
next
  case (Num i)
  obtain c where c: "c \<in> set (digits (nat \<bar>i\<bar>))"
    using digits_nonempty [of "nat \<bar>i\<bar>"] by (cases "digits (nat \<bar>i\<bar>)") auto
  then have "\<not> isWhiteSpace c" by (auto dest!: digits_chars digit_not_space)
  moreover have "c \<in> set (toString_number n)" using c Num by (auto simp: abs_if)
  ultimately show ?thesis unfolding trim_nonempty_iff by blast
qed

lemma validateInput_required:
  "required v = Some True \<Longrightarrow> validateInput v \<Longrightarrow> trim (toString (value_V v)) \<noteq> []"
  unfolding validateInput_def Let_def
  by (auto split: option.splits val.splits)

lemma gt_number_int: "gt_number (Num a) m = (case m of Num b \<Rightarrow> b < a | NaN \<Rightarrow> False)"
  by (cases m) simp_all

lemma lt_number_int: "lt_number (Num a) m = (case m of Num b \<Rightarrow> a < b | NaN \<Rightarrow> False)"
  by (cases m) simp_all

text \<open>
  \<^bold>\<open>C5.\<close> For every value and every set of constraints, \<^verbatim>\<open>validateInput\<close>
  answers valid exactly when each constraint that is present and applies to the type
  of the value holds: the constraints are conjoined, \<^verbatim>\<open>minLength\<close> and
  \<^verbatim>\<open>maxLength\<close> bind strings only, \<^verbatim>\<open>min\<close> and \<^verbatim>\<open>max\<close> bind numbers only,
  an absent constraint binds nothing, and the four comparisons are strict.
\<close>

theorem validateInput_spec: "validateInput v = spec_valid v"
proof (cases "value_V v")
  case (Str s)
  have lengths: "minLength_holds v
        = (case minLength v of None \<Rightarrow> True | Some m \<Rightarrow> gt_number (Num (int (length s))) m)"
      "maxLength_holds v
        = (case maxLength v of None \<Rightarrow> True | Some m \<Rightarrow> lt_number (Num (int (length s))) m)"
    using Str
    by (auto simp: minLength_holds_def maxLength_holds_def gt_number_int lt_number_int
        split: option.splits number.splits)
  have bounds: "min_holds v" "max_holds v"
    using Str by (auto simp: min_holds_def max_holds_def split: option.splits number.splits)
  show ?thesis
    unfolding spec_valid_def lengths
    using Str bounds
    by (cases "required v"; cases "minLength v"; cases "maxLength v")
       (auto simp: validateInput_def required_holds_def Let_def split: option.splits)
next
  case (Number n)
  have lengths: "minLength_holds v" "maxLength_holds v"
    using Number
    by (auto simp: minLength_holds_def maxLength_holds_def split: option.splits number.splits)
  have bounds: "min_holds v = (case min_V v of None \<Rightarrow> True | Some m \<Rightarrow> gt_number n m)"
      "max_holds v = (case max_V v of None \<Rightarrow> True | Some m \<Rightarrow> lt_number n m)"
    using Number
    by (auto simp: min_holds_def max_holds_def split: option.splits number.splits
        elim: gt_number.elims lt_number.elims)
  show ?thesis
    unfolding spec_valid_def bounds
    using Number lengths
    by (cases "required v"; cases "min_V v"; cases "max_V v")
       (auto simp: validateInput_def required_holds_def Let_def split: option.splits)
qed

text \<open>
  \<^bold>\<open>C9.\<close> The \<^verbatim>\<open>required\<close> constraint holds exactly when the value, converted to
  a string and trimmed, is not empty: no valid input with \<^verbatim>\<open>required\<close> set has a
  blank string form, with \<^verbatim>\<open>required\<close> as the only constraint the answer is that
  test, a string of white space only fails it, and the number 0 passes it.
\<close>

theorem required_trimmed_nonempty:
  "(required v = Some True \<and> validateInput v \<longrightarrow> trim (toString (value_V v)) \<noteq> [])
   \<and> validateInput \<lparr>value_V = x, required = Some True, minLength = None,
                      maxLength = None, min_V = None, max_V = None\<rparr>
       = (trim (toString x) \<noteq> [])
   \<and> (list_all isWhiteSpace s \<longrightarrow>
        \<not> validateInput \<lparr>value_V = Str s, required = Some True, minLength = None,
                            maxLength = None, min_V = None, max_V = None\<rparr>)
   \<and> validateInput \<lparr>value_V = Number (Num 0), required = Some True, minLength = None,
                      maxLength = None, min_V = None, max_V = None\<rparr>"
proof -
  have a: "required v = Some True \<and> validateInput v \<longrightarrow> trim (toString (value_V v)) \<noteq> []"
    by (auto dest: validateInput_required)
  have b: "validateInput \<lparr>value_V = y, required = Some True, minLength = None,
                      maxLength = None, min_V = None, max_V = None\<rparr>
       = (trim (toString y) \<noteq> [])" for y
    by (simp add: validateInput_def)
  have c: "list_all isWhiteSpace s \<longrightarrow> trim (toString (Str s)) = []"
    using trim_nonempty_iff [of s] by (auto simp: list_all_iff)
  have d: "trim (toString (Number (Num 0))) \<noteq> []"
    using toString_number_trim [of "Num 0"] by simp
  show ?thesis using a b [of x] b [of "Str s"] b [of "Number (Num 0)"] c d by blast
qed

theorem required_trimmed_nonempty_witness:
  "list_all isWhiteSpace [CHR 0x20, CHR 0x09]
   \<and> \<not> validateInput \<lparr>value_V = Str [CHR 0x20, CHR 0x09], required = Some True,
                            minLength = None, maxLength = None, min_V = None, max_V = None\<rparr>
   \<and> validateInput \<lparr>value_V = Str ''shed'', required = Some True, minLength = None,
                      maxLength = None, min_V = None, max_V = None\<rparr>"
  using required_trimmed_nonempty
    [of "\<lparr>value_V = Str ''shed'', required = Some True, minLength = None,
           maxLength = None, min_V = None, max_V = None\<rparr>" "Str ''shed''" "[CHR 0x20, CHR 0x09]"]
  by (simp add: isWhiteSpace_def trim_def)

section \<open>Properties of the project state\<close>

lemma call_listeners_all_return:
  "list_all (\<lambda>l. snd l ps = Returns) ls \<Longrightarrow>
   call_listeners ls ps = map (\<lambda>l. (fst l, ps, Returns)) ls"
  by (induction ls) (simp_all add: slice_def)

lemma call_listeners_length: "length (call_listeners ls ps) \<le> length ls"
  by (induction ls) (simp_all split: outcome.splits)

lemma returned_all_return: "returned (map (\<lambda>l. (fst l, ps, Returns)) ls)"
  by (simp add: returned_def list_all_iff)

lemma find_pos_Some:
  "find_pos P xs = Some i \<Longrightarrow> i < length xs \<and> P (xs ! i) \<and> (\<forall>j < i. \<not> P (xs ! j))"
proof (induction xs arbitrary: i)
  case Nil
  then show ?case by simp
next
  case (Cons x xs)
  show ?case
  proof (cases "P x")
    case True
    with Cons.prems show ?thesis by simp
  next
    case False
    with Cons.prems obtain k where k: "find_pos P xs = Some k" "i = Suc k" by auto
    from Cons.IH [OF k(1)] False k(2) show ?thesis
      by (auto simp: less_Suc_eq_0_disj)
  qed
qed

lemma find_pos_find: "find P xs = map_option (\<lambda>i. xs ! i) (find_pos P xs)"
  by (induction xs) (auto simp: option.map_comp comp_def)

lemma find_pos_None: "(find_pos P xs = None) = (\<forall>x \<in> set xs. \<not> P x)"
  by (induction xs) auto

lemma projects_updateListeners [simp]: "projects (updateListeners st) = projects st"
  by (simp add: updateListeners_def)

lemma listeners_updateListeners [simp]: "listeners (updateListeners st) = listeners st"
  by (simp add: updateListeners_def)

lemma notified_updateListeners:
  "notified (updateListeners st) = notified st @ [call_listeners (listeners st) (projects st)]"
  by (simp add: updateListeners_def)

lemma projects_addProject:
  "projects (addProject rnd t d n st) =
     projects st @ [\<lparr>id_P = rnd, title = t, description = d, people = n, status = Active\<rparr>]"
  by (simp add: addProject_def Let_def)

lemma moveProject_cases:
  "moveProject pid s st = st \<or>
   (\<exists>i. find_pos (\<lambda>p. id_P p = pid) (projects st) = Some i \<and> status (projects st ! i) \<noteq> s \<and>
      moveProject pid s st =
        updateListeners (st\<lparr>projects := (projects st)[i := (projects st ! i)\<lparr>status := s\<rparr>]\<rparr>))"
  by (auto simp: moveProject_def Let_def split: option.splits)

text \<open>
  \<^bold>\<open>C7.\<close> From every store state, \<^verbatim>\<open>addProject\<close> builds a project whose status
  is \<^const>\<open>Active\<close> and appends it at the end of the list, so that the projects
  already there keep their positions and the order of the list is the order of
  creation; then it runs \<^verbatim>\<open>updateListeners\<close> exactly once, on the extended list.
\<close>

theorem addProject_appends_notifies_once:
  "projects (addProject rnd t d n st) =
     projects st @ [\<lparr>id_P = rnd, title = t, description = d, people = n, status = Active\<rparr>]
   \<and> take (length (projects st)) (projects (addProject rnd t d n st)) = projects st
   \<and> listeners (addProject rnd t d n st) = listeners st
   \<and> notified (addProject rnd t d n st) =
       notified st @ [call_listeners (listeners st) (projects (addProject rnd t d n st))]
   \<and> length (notified (addProject rnd t d n st)) = Suc (length (notified st))"
proof -
  let ?new = "\<lparr>id_P = rnd, title = t, description = d, people = n, status = Active\<rparr>"
  have run: "addProject rnd t d n st = updateListeners (st\<lparr>projects := projects st @ [?new]\<rparr>)"
    by (simp add: addProject_def Let_def)
  have appended: "projects (addProject rnd t d n st) = projects st @ [?new]"
    unfolding run by simp
  have once: "notified (addProject rnd t d n st)
                = notified st @ [call_listeners (listeners st) (projects st @ [?new])]"
    unfolding run by (simp add: notified_updateListeners)
  have kept: "listeners (addProject rnd t d n st) = listeners st"
    unfolding run by simp
  from appended once kept show ?thesis by simp
qed

lemma map_update_status:
  "i < length ps \<Longrightarrow> map id_P (ps[i := (ps ! i)\<lparr>status := s\<rparr>]) = map id_P ps"
  "i < length ps \<Longrightarrow> map title (ps[i := (ps ! i)\<lparr>status := s\<rparr>]) = map title ps"
  "i < length ps \<Longrightarrow> map description (ps[i := (ps ! i)\<lparr>status := s\<rparr>]) = map description ps"
  "i < length ps \<Longrightarrow> map people (ps[i := (ps ! i)\<lparr>status := s\<rparr>]) = map people ps"
  by (simp_all add: map_update list_update_same_conv)

text \<open>
  \<^bold>\<open>C10.\<close> For every store state, identifier and status, \<^verbatim>\<open>moveProject\<close>
  changes neither the number of projects nor their order, nor the \<^verbatim>\<open>id\<close>,
  \<^verbatim>\<open>title\<close>, \<^verbatim>\<open>description\<close> or \<^verbatim>\<open>people\<close> of any of them: the list is
  the same, or it differs at one position, whose project has the identifier given,
  and there in the status only.
\<close>

theorem moveProject_frame:
  "length (projects (moveProject pid s st)) = length (projects st)
   \<and> map id_P (projects (moveProject pid s st)) = map id_P (projects st)
   \<and> map title (projects (moveProject pid s st)) = map title (projects st)
   \<and> map description (projects (moveProject pid s st)) = map description (projects st)
   \<and> map people (projects (moveProject pid s st)) = map people (projects st)
   \<and> (projects (moveProject pid s st) = projects st
      \<or> (\<exists>i < length (projects st). id_P (projects st ! i) = pid
            \<and> projects (moveProject pid s st)
                = (projects st)[i := (projects st ! i)\<lparr>status := s\<rparr>]))"
  using moveProject_cases [of pid s st]
  by (auto dest!: find_pos_Some simp: map_update_status)

lemma notified_moveProject_changed:
  "find_pos (\<lambda>p. id_P p = pid) (projects st) = Some i \<Longrightarrow> status (projects st ! i) \<noteq> s \<Longrightarrow>
   moveProject pid s st =
     updateListeners (st\<lparr>projects := (projects st)[i := (projects st ! i)\<lparr>status := s\<rparr>]\<rparr>)"
  by (simp add: moveProject_def Let_def)

lemma moveProject_noop:
  "find (\<lambda>p. id_P p = pid) (projects st) = None
     \<or> (\<exists>p. find (\<lambda>p. id_P p = pid) (projects st) = Some p \<and> status p = s)
   \<Longrightarrow> moveProject pid s st = st"
  by (auto simp: moveProject_def Let_def find_pos_find split: option.splits)

lemma find_unique_id:
  "distinct (map id_P ps) \<Longrightarrow>
   (find (\<lambda>p. id_P p = pid) ps = Some p) = (p \<in> set ps \<and> id_P p = pid)"
  by (induction ps) (auto simp: rev_image_eqI)

text \<open>
  \<^bold>\<open>C4.\<close> For every store state, \<^verbatim>\<open>moveProject\<close> notifies the listeners if and
  only if the lookup finds a project with the identifier and the status of that
  project differs from the new one. When nothing is found, and when the status is the
  same, the state returned is the state given: the list is unchanged and nobody is
  called. When the status differs, the project found is updated at its position and
  the listeners are then called once, with the updated list. The project looked up is
  the first with the identifier, as \<^verbatim>\<open>find\<close> has it; where identifiers are
  distinct it is the project with the identifier.
\<close>

theorem moveProject_notifies_iff:
  "(notified (moveProject pid s st) \<noteq> notified st)
     = (\<exists>p. find (\<lambda>p. id_P p = pid) (projects st) = Some p \<and> status p \<noteq> s)
   \<and> (find (\<lambda>p. id_P p = pid) (projects st) = None \<longrightarrow> moveProject pid s st = st)
   \<and> (\<forall>p. find (\<lambda>p. id_P p = pid) (projects st) = Some p \<and> status p = s
          \<longrightarrow> moveProject pid s st = st)
   \<and> (\<forall>p. find (\<lambda>p. id_P p = pid) (projects st) = Some p \<and> status p \<noteq> s
          \<longrightarrow> (\<exists>i < length (projects st).
                 find_pos (\<lambda>p. id_P p = pid) (projects st) = Some i
                 \<and> projects st ! i = p
                 \<and> projects (moveProject pid s st) = (projects st)[i := p\<lparr>status := s\<rparr>]
                 \<and> listeners (moveProject pid s st) = listeners st
                 \<and> notified (moveProject pid s st)
                     = notified st @ [call_listeners (listeners st)
                                        (projects (moveProject pid s st))]))
   \<and> (distinct (map id_P (projects st)) \<longrightarrow>
        (\<exists>p. find (\<lambda>p. id_P p = pid) (projects st) = Some p \<and> status p \<noteq> s)
          = (\<exists>p \<in> set (projects st). id_P p = pid \<and> status p \<noteq> s))"
proof -
  let ?f = "find (\<lambda>p. id_P p = pid) (projects st)"
  have uniq: "distinct (map id_P (projects st)) \<longrightarrow>
        (\<exists>p. ?f = Some p \<and> status p \<noteq> s)
          = (\<exists>p \<in> set (projects st). id_P p = pid \<and> status p \<noteq> s)"
    by (auto simp: find_unique_id)
  have none: "?f = None \<longrightarrow> moveProject pid s st = st"
    using moveProject_noop [of pid st s] by blast
  have same: "\<forall>p. ?f = Some p \<and> status p = s \<longrightarrow> moveProject pid s st = st"
    using moveProject_noop [of pid st s] by blast
  have diff: "\<exists>i < length (projects st).
                 find_pos (\<lambda>p. id_P p = pid) (projects st) = Some i
                 \<and> projects st ! i = p
                 \<and> projects (moveProject pid s st) = (projects st)[i := p\<lparr>status := s\<rparr>]
                 \<and> listeners (moveProject pid s st) = listeners st
                 \<and> notified (moveProject pid s st)
                     = notified st @ [call_listeners (listeners st)
                                        (projects (moveProject pid s st))]"
    if p: "?f = Some p" "status p \<noteq> s" for p
  proof -
    from p(1) obtain i where i: "find_pos (\<lambda>p. id_P p = pid) (projects st) = Some i"
      and pi: "projects st ! i = p"
      by (auto simp: find_pos_find)
    from find_pos_Some [OF i] have len: "i < length (projects st)" by simp
    from i pi p(2) have
      "moveProject pid s st =
         updateListeners (st\<lparr>projects := (projects st)[i := p\<lparr>status := s\<rparr>]\<rparr>)"
      by (simp add: notified_moveProject_changed)
    then show ?thesis using len pi i by (auto simp: notified_updateListeners)
  qed
  have iff: "(notified (moveProject pid s st) \<noteq> notified st)
     = (\<exists>p. ?f = Some p \<and> status p \<noteq> s)"
  proof (cases ?f)
    case None
    with none show ?thesis by simp
  next
    case (Some p)
    show ?thesis
    proof (cases "status p = s")
      case True
      with Some same show ?thesis by simp
    next
      case False
      from diff [OF Some False] have "notified (moveProject pid s st) \<noteq> notified st"
        by auto
      with Some False show ?thesis by simp
    qed
  qed
  from iff none same diff uniq show ?thesis by blast
qed

theorem moveProject_notifies_iff_witness:
  "find (\<lambda>p. id_P p = ''0.9'') (projects two_projects) = None
   \<and> moveProject ''0.9'' Finished two_projects = two_projects
   \<and> find (\<lambda>p. id_P p = ''0.2'') (projects two_projects) = Some (projects two_projects ! 1)
   \<and> status (projects two_projects ! 1) = Finished
   \<and> moveProject ''0.2'' Finished two_projects = two_projects
   \<and> find (\<lambda>p. id_P p = ''0.1'') (projects two_projects) = Some (projects two_projects ! 0)
   \<and> status (projects two_projects ! 0) \<noteq> Finished
   \<and> notified (moveProject ''0.1'' Finished two_projects) \<noteq> notified two_projects
   \<and> distinct (map id_P (projects two_projects))"
  using moveProject_notifies_iff [of "''0.9''" Finished two_projects]
    moveProject_notifies_iff [of "''0.2''" Finished two_projects]
    moveProject_notifies_iff [of "''0.1''" Finished two_projects]
  by (simp add: two_projects_def)

lemma ids_moveProject: "map id_P (projects (moveProject pid s st)) = map id_P (projects st)"
  using moveProject_cases [of pid s st]
  by (auto dest!: find_pos_Some simp: map_update_status)

lemma ids_apply_operation:
  "map id_P (projects (apply_operation op st)) = map id_P (projects st) @ draws [op]"
  by (cases op) (simp_all add: addListener_def projects_addProject ids_moveProject)

lemma draws_Cons: "draws (op # ops) = draws [op] @ draws ops"
  by (cases op) simp_all

text \<open>
  \<^bold>\<open>C2.\<close> The program draws identifiers and does not compare them: two calls of
  \<^verbatim>\<open>addProject\<close> that draw the same string give two projects with one identifier
  as the instance after the theorem shows. What holds is this: after any sequence
  of store operations, the identifiers in the store are pairwise distinct exactly when
  the identifiers there before, followed by the strings drawn by the \<^verbatim>\<open>addProject\<close>
  calls, are pairwise distinct.
\<close>

theorem ids_distinct_iff_draws_distinct:
  "distinct (map id_P (projects (run ops st))) = distinct (map id_P (projects st) @ draws ops)"
proof (induction ops arbitrary: st)
  case Nil
  show ?case by simp
next
  case (Cons op ops)
  have "distinct (map id_P (projects (run (op # ops) st)))
          = distinct (map id_P (projects (apply_operation op st)) @ draws ops)"
    using Cons.IH [of "apply_operation op st"] by simp
  also have "\<dots> = distinct ((map id_P (projects st) @ draws [op]) @ draws ops)"
    by (simp only: ids_apply_operation)
  also have "\<dots> = distinct (map id_P (projects st) @ draws (op # ops))"
    by (simp only: draws_Cons [of op ops] append_assoc)
  finally show ?case .
qed

text \<open>Two creations that draw the same string: the identifiers collide.\<close>

theorem addProject_same_draw_counterexample:
  "\<not> distinct (map id_P (projects
        (run [AddProject ''0.5'' ''Build shed'' ''Outdoor storage'' (Num 2),
              AddProject ''0.5'' ''Paint'' ''Fence and gate'' (Num 3)]
             (new_ProjectState :: nat ProjectState))))"
  by (simp add: new_ProjectState_def addProject_def updateListeners_def Let_def)

text \<open>One operation: what it keeps of a project that is in the store.\<close>

lemma apply_operation_keeps:
  assumes "i < length (projects st)"
  shows "i < length (projects (apply_operation op st))
         \<and> id_P (projects (apply_operation op st) ! i) = id_P (projects st ! i)
         \<and> title (projects (apply_operation op st) ! i) = title (projects st ! i)
         \<and> description (projects (apply_operation op st) ! i) = description (projects st ! i)
         \<and> people (projects (apply_operation op st) ! i) = people (projects st ! i)
         \<and> ((\<forall>s. op \<noteq> MoveProject (id_P (projects st ! i)) s)
              \<longrightarrow> status (projects (apply_operation op st) ! i) = status (projects st ! i))"
proof (cases op)
  case (AddListener l)
  with assms show ?thesis by (simp add: addListener_def)
next
  case (AddProject rnd t d n)
  with assms show ?thesis by (simp add: projects_addProject nth_append)
next
  case (MoveProject pid s)
  from moveProject_cases [of pid s st] show ?thesis
  proof
    assume "moveProject pid s st = st"
    with MoveProject assms show ?thesis by simp
  next
    assume "\<exists>k. find_pos (\<lambda>p. id_P p = pid) (projects st) = Some k \<and>
      status (projects st ! k) \<noteq> s \<and>
      moveProject pid s st =
        updateListeners (st\<lparr>projects := (projects st)[k := (projects st ! k)\<lparr>status := s\<rparr>]\<rparr>)"
    then obtain k where k: "find_pos (\<lambda>p. id_P p = pid) (projects st) = Some k"
      and eq: "projects (moveProject pid s st) = (projects st)[k := (projects st ! k)\<lparr>status := s\<rparr>]"
      by auto
    from find_pos_Some [OF k] have kid: "id_P (projects st ! k) = pid" and "k < length (projects st)"
      by simp_all
    with MoveProject assms eq show ?thesis
      by (cases "i = k") auto
  qed
qed

text \<open>
  \<^bold>\<open>C8.\<close> For every project in the store and every sequence of store operations,
  the project stays where it is and its \<^verbatim>\<open>id\<close>, \<^verbatim>\<open>title\<close>, \<^verbatim>\<open>description\<close>
  and \<^verbatim>\<open>people\<close> are what they were; its status is what it was too unless the
  sequence holds a \<^verbatim>\<open>moveProject\<close> for its identifier.
\<close>

theorem fields_fixed_after_creation:
  "i < length (projects st) \<Longrightarrow>
     i < length (projects (run ops st))
     \<and> id_P (projects (run ops st) ! i) = id_P (projects st ! i)
     \<and> title (projects (run ops st) ! i) = title (projects st ! i)
     \<and> description (projects (run ops st) ! i) = description (projects st ! i)
     \<and> people (projects (run ops st) ! i) = people (projects st ! i)
     \<and> ((\<forall>s. MoveProject (id_P (projects st ! i)) s \<notin> set ops)
          \<longrightarrow> status (projects (run ops st) ! i) = status (projects st ! i))"
proof (induction ops arbitrary: st)
  case Nil
  then show ?case by simp
next
  case (Cons op ops)
  let ?st = "apply_operation op st"
  from apply_operation_keeps [OF Cons.prems, of op]
  have i: "i < length (projects ?st)"
    and same: "id_P (projects ?st ! i) = id_P (projects st ! i)"
      "title (projects ?st ! i) = title (projects st ! i)"
      "description (projects ?st ! i) = description (projects st ! i)"
      "people (projects ?st ! i) = people (projects st ! i)"
    and st: "(\<forall>s. op \<noteq> MoveProject (id_P (projects st ! i)) s)
              \<longrightarrow> status (projects ?st ! i) = status (projects st ! i)"
    by blast+
  from Cons.IH [OF i] same st show ?case by auto
qed

theorem fields_fixed_after_creation_witness:
  "(0::nat) < length (projects two_projects)
   \<and> title (projects (run [AddProject ''0.3'' ''Mow'' ''Front and back'' (Num 2),
                             MoveProject ''0.1'' Finished, AddListener (quiet 3)] two_projects) ! 0)
       = ''Build shed''
   \<and> status (projects (run [AddProject ''0.3'' ''Mow'' ''Front and back'' (Num 2),
                              MoveProject ''0.2'' Active, AddListener (quiet 3)] two_projects) ! 0)
       = Active"
  using fields_fixed_after_creation [of 0 two_projects
      "[AddProject ''0.3'' ''Mow'' ''Front and back'' (Num 2), MoveProject ''0.1'' Finished,
        AddListener (quiet 3)]"]
    fields_fixed_after_creation [of 0 two_projects
      "[AddProject ''0.3'' ''Mow'' ''Front and back'' (Num 2), MoveProject ''0.2'' Active,
        AddListener (quiet 3)]"]
  by (simp add: two_projects_def)

lemma addListener_twice:
  "listeners (addListener B (addListener A st)) = listeners st @ [A, B]"
  by (simp add: addListener_def)

lemma notified_addProject:
  assumes "list_all (\<lambda>l. snd l (projects (addProject rnd t d n st)) = Returns) (listeners st)"
  shows "notified (addProject rnd t d n st) =
     notified st @ [map (\<lambda>l. (fst l, projects (addProject rnd t d n st), Returns)) (listeners st)]"
proof -
  have "notified (addProject rnd t d n st)
          = notified st @ [call_listeners (listeners st) (projects (addProject rnd t d n st))]"
    by (simp add: addProject_def updateListeners_def Let_def)
  then show ?thesis by (simp only: call_listeners_all_return [OF assms])
qed

lemma moveProject_changed:
  assumes "find (\<lambda>p. id_P p = pid) (projects st) = Some p" "status p \<noteq> s"
  shows "\<exists>i. find_pos (\<lambda>p. id_P p = pid) (projects st) = Some i \<and> projects st ! i = p \<and>
     moveProject pid s st =
       updateListeners (st\<lparr>projects := (projects st)[i := p\<lparr>status := s\<rparr>]\<rparr>)"
  using assms by (auto simp: find_pos_find moveProject_def Let_def)

lemma notified_moveProject:
  assumes "find (\<lambda>p. id_P p = pid) (projects st) = Some p" "status p \<noteq> s"
  shows "list_all (\<lambda>l. snd l (projects (moveProject pid s st)) = Returns) (listeners st) \<Longrightarrow>
     notified (moveProject pid s st) =
       notified st @ [map (\<lambda>l. (fst l, projects (moveProject pid s st), Returns)) (listeners st)]"
    and "p\<lparr>status := s\<rparr> \<in> set (projects (moveProject pid s st))"
proof -
  from moveProject_changed [OF assms] obtain i
    where i: "find_pos (\<lambda>p. id_P p = pid) (projects st) = Some i"
      and eq: "moveProject pid s st =
       updateListeners (st\<lparr>projects := (projects st)[i := p\<lparr>status := s\<rparr>]\<rparr>)"
    by blast
  from eq have "notified (moveProject pid s st)
          = notified st @ [call_listeners (listeners st) (projects (moveProject pid s st))]"
    by (simp add: notified_updateListeners)
  then show "notified (moveProject pid s st) =
       notified st @ [map (\<lambda>l. (fst l, projects (moveProject pid s st), Returns)) (listeners st)]"
    if "list_all (\<lambda>l. snd l (projects (moveProject pid s st)) = Returns) (listeners st)"
    by (simp only: call_listeners_all_return [OF that])
  from find_pos_Some [OF i] have "i < length (projects st)" by simp
  with eq show "p\<lparr>status := s\<rparr> \<in> set (projects (moveProject pid s st))"
    by (simp add: set_update_memI)
qed

text \<open>
  \<^bold>\<open>C6.\<close> The specification has every listener called, in the order of registration
  and to completion, by every \<^verbatim>\<open>addProject\<close> and every \<^verbatim>\<open>moveProject\<close> that changes
  a status. Nothing catches what a listener throws: when \<open>A\<close> throws, \<open>B\<close> is not
  called, as the instance after the theorem shows. What holds is this. Listeners are
  kept in the order of registration. When \<open>A\<close> was registered before \<open>B\<close> and no
  listener throws on the list as it is after the change, one \<^verbatim>\<open>addProject\<close>, or one
  \<^verbatim>\<open>moveProject\<close> that changes a status, makes one run of calls in which the call of
  \<open>A\<close> comes before the call of \<open>B\<close>; every listener is called, with the list as it is
  after the change (it ends with the new project, or holds the moved project with its
  new status); and every call of the run has returned in the state the operation
  returns.
\<close>

theorem listeners_called_in_order:
  "listeners (addListener B (addListener A st0)) = listeners st0 @ [A, B]
   \<and> (listeners st = xs @ A # ys @ B # zs
        \<and> list_all (\<lambda>l. snd l (projects (addProject rnd t d n st)) = Returns) (listeners st)
      \<longrightarrow>
        (let st' = addProject rnd t d n st; snapshot = projects st';
             call = (\<lambda>l. (fst l, snapshot, Returns))
         in notified st' = notified st @ [map call xs @ call A # map call ys @ call B # map call zs]
            \<and> returned (last (notified st'))
            \<and> last snapshot = \<lparr>id_P = rnd, title = t, description = d, people = n,
                                 status = Active\<rparr>
            \<and> snapshot \<noteq> []))
   \<and> (listeners st = xs @ A # ys @ B # zs
        \<and> find (\<lambda>p. id_P p = pid) (projects st) = Some p \<and> status p \<noteq> s
        \<and> list_all (\<lambda>l. snd l (projects (moveProject pid s st)) = Returns) (listeners st)
      \<longrightarrow>
        (let st' = moveProject pid s st; snapshot = projects st';
             call = (\<lambda>l. (fst l, snapshot, Returns))
         in notified st' = notified st @ [map call xs @ call A # map call ys @ call B # map call zs]
            \<and> returned (last (notified st'))
            \<and> p\<lparr>status := s\<rparr> \<in> set snapshot))"
proof -
  have a: "listeners (addListener B (addListener A st0)) = listeners st0 @ [A, B]"
    by (rule addListener_twice)
  have b: "let st' = addProject rnd t d n st; snapshot = projects st';
             call = (\<lambda>l. (fst l, snapshot, Returns))
         in notified st' = notified st @ [map call xs @ call A # map call ys @ call B # map call zs]
            \<and> returned (last (notified st'))
            \<and> last snapshot = \<lparr>id_P = rnd, title = t, description = d, people = n,
                                 status = Active\<rparr>
            \<and> snapshot \<noteq> []"
    if ls: "listeners st = xs @ A # ys @ B # zs"
      and quiet: "list_all (\<lambda>l. snd l (projects (addProject rnd t d n st)) = Returns) (listeners st)"
  proof -
    let ?call = "\<lambda>l. (fst l, projects (addProject rnd t d n st), Returns)"
    have run: "notified (addProject rnd t d n st) = notified st @ [map ?call (listeners st)]"
      by (rule notified_addProject [OF quiet])
    then have ret: "returned (last (notified (addProject rnd t d n st)))"
      by (simp add: returned_all_return)
    from run ret ls show ?thesis
      by (simp add: Let_def projects_addProject)
  qed
  have c: "let st' = moveProject pid s st; snapshot = projects st';
             call = (\<lambda>l. (fst l, snapshot, Returns))
         in notified st' = notified st @ [map call xs @ call A # map call ys @ call B # map call zs]
            \<and> returned (last (notified st'))
            \<and> p\<lparr>status := s\<rparr> \<in> set snapshot"
    if ls: "listeners st = xs @ A # ys @ B # zs"
      and found: "find (\<lambda>p. id_P p = pid) (projects st) = Some p" "status p \<noteq> s"
      and quiet: "list_all (\<lambda>l. snd l (projects (moveProject pid s st)) = Returns) (listeners st)"
  proof -
    let ?call = "\<lambda>l. (fst l, projects (moveProject pid s st), Returns)"
    have run: "notified (moveProject pid s st) = notified st @ [map ?call (listeners st)]"
      by (rule notified_moveProject(1) [OF found quiet])
    then have ret: "returned (last (notified (moveProject pid s st)))"
      by (simp add: returned_all_return)
    from run ret ls notified_moveProject(2) [OF found] show ?thesis
      by (simp add: Let_def)
  qed
  from a b c show ?thesis by blast
qed

theorem listeners_called_in_order_witness:
  "listeners two_projects = [] @ quiet 1 # [] @ quiet 2 # []
   \<and> list_all (\<lambda>l. snd l (projects (addProject ''0.3'' ''Mow'' ''Front and back'' (Num 2)
                                        two_projects)) = Returns) (listeners two_projects)
   \<and> notified (addProject ''0.3'' ''Mow'' ''Front and back'' (Num 2) two_projects)
       = [[(1, projects two_projects @ [\<lparr>id_P = ''0.3'', title = ''Mow'',
                description = ''Front and back'', people = Num 2, status = Active\<rparr>], Returns),
           (2, projects two_projects @ [\<lparr>id_P = ''0.3'', title = ''Mow'',
                description = ''Front and back'', people = Num 2, status = Active\<rparr>], Returns)]]
   \<and> find (\<lambda>p. id_P p = ''0.1'') (projects two_projects) = Some (projects two_projects ! 0)
   \<and> status (projects two_projects ! 0) \<noteq> Finished
   \<and> list_all (\<lambda>l. snd l (projects (moveProject ''0.1'' Finished two_projects)) = Returns)
        (listeners two_projects)
   \<and> notified (moveProject ''0.1'' Finished two_projects)
       = [[(1, projects (moveProject ''0.1'' Finished two_projects), Returns),
           (2, projects (moveProject ''0.1'' Finished two_projects), Returns)]]"
  using listeners_called_in_order [where A = "quiet 1" and B = "quiet 2"
      and ?st0.0 = two_projects
      and st = two_projects and xs = "[]" and ys = "[]" and zs = "[]" and rnd = "''0.3''"
      and t = "''Mow''" and d = "''Front and back''" and n = "Num 2" and pid = "''0.1''"
      and p = "projects two_projects ! 0" and s = Finished]
  by (simp add: two_projects_def quiet_def Let_def projects_addProject)

text \<open>The first listener throws: the second is not called, though the project was
  added.\<close>

theorem throwing_listener_counterexample:
  "notified (addProject ''0.3'' ''Mow'' ''Front and back'' (Num 2)
              (addListener (quiet 2) (addListener (failing (1::nat)) new_ProjectState)))
     = [[(1, [\<lparr>id_P = ''0.3'', title = ''Mow'', description = ''Front and back'',
                    people = Num 2, status = Active\<rparr>], Throws)]]
   \<and> (2::nat) \<notin> set (map fst (last (notified
          (addProject ''0.3'' ''Mow'' ''Front and back'' (Num 2)
             (addListener (quiet 2) (addListener (failing (1::nat)) new_ProjectState))))))
   \<and> \<not> returned (last (notified
          (addProject ''0.3'' ''Mow'' ''Front and back'' (Num 2)
             (addListener (quiet 2) (addListener (failing (1::nat)) new_ProjectState)))))"
  by (simp add: addProject_def updateListeners_def addListener_def new_ProjectState_def
      quiet_def failing_def slice_def returned_def Let_def)

lemma submitHandler_rejects_iff:
  "(submitHandler Number_of rnd app = app\<lparr>alerts := alerts app @ [''Input is invalid. Please try again.'']\<rparr>)
     = (\<not> validateInput (titleValidatable (titleInputElement (projectInput app)))
        \<and> \<not> validateInput (descriptionValidatable (descInputElement (projectInput app)))
        \<and> \<not> validateInput (peopleValidatable (Number_of (peopleInputElement (projectInput app)))))"
proof -
  have neq: "projects (projectState (clearUserInput (app\<lparr>projectState := addProject rnd t d p (projectState app)\<rparr>)))
           \<noteq> projects (projectState (app\<lparr>alerts := al\<rparr>))"
      "projects (projectState (app\<lparr>projectState := addProject rnd t d p (projectState app)\<rparr>))
           \<noteq> projects (projectState (app\<lparr>alerts := al\<rparr>))" for t d p al
    by (simp_all add: clearUserInput_def projects_addProject)
  then have neq': "clearUserInput (app\<lparr>projectState := addProject rnd t d p (projectState app)\<rparr>)
           \<noteq> app\<lparr>alerts := al\<rparr>"
      "app\<lparr>projectState := addProject rnd t d p (projectState app)\<rparr>
           \<noteq> app\<lparr>alerts := al\<rparr>" for t d p al
    by metis+
  show ?thesis
    unfolding submitHandler_def getUserInput_def Let_def titleValidatable_def
      descriptionValidatable_def peopleValidatable_def
    using neq' by (simp split: if_splits)
qed

text \<open>
  \<^bold>\<open>C1.\<close> The specification has the submission abandoned as soon as one of the
  three fields is invalid. \<^verbatim>\<open>getUserInput\<close> rejects only when all three are
  (\<open>submitHandler_rejects_iff\<close>). With an empty title and a valid description the
  title fails validation, yet no alert is shown and a project with the empty title is
  added to the store, whatever the people field holds.
\<close>

theorem submitHandler_accepts_empty_title:
  "(let app = \<lparr>projectState = st,
               projectInput = \<lparr>titleInputElement = [], descInputElement = ''Outdoor storage'',
                                peopleInputElement = ''2''\<rparr>,
               alerts = []\<rparr>;
        app' = submitHandler Number_of rnd app
    in \<not> validateInput \<lparr>value_V = Str [], required = Some True, minLength = None,
                            maxLength = None, min_V = None, max_V = None\<rparr>
       \<and> alerts app' = []
       \<and> projects (projectState app')
           = projects st @ [\<lparr>id_P = rnd, title = [], description = ''Outdoor storage'',
                               people = Number_of ''2'', status = Active\<rparr>])"
proof -
  have t: "\<not> validateInput \<lparr>value_V = Str [], required = Some True, minLength = None,
                            maxLength = None, min_V = None, max_V = None\<rparr>"
    by (simp add: validateInput_def trim_def)
  have d: "validateInput \<lparr>value_V = Str ''Outdoor storage'', required = Some True,
              minLength = Some (Num 5), maxLength = None, min_V = None, max_V = None\<rparr>"
    by (simp add: validateInput_def trim_def isWhiteSpace_def)
  show ?thesis
    using t d
    by (simp add: Let_def submitHandler_def getUserInput_def clearUserInput_def
        projects_addProject)
qed

section \<open>Properties of the store on references\<close>

text \<open>What one run of \<^verbatim>\<open>updateListeners\<close> does to the memory: it allocates one
  array for each listener it calls, in order, and leaves every older array and every
  object as it was. The listeners called are those the loop on values calls.\<close>

lemma call_listeners_ref_frame:
  "objects (call_listeners_ref ls m) = objects m
   \<and> projects_ref (call_listeners_ref ls m) = projects_ref m
   \<and> listeners_ref (call_listeners_ref ls m) = listeners_ref m
   \<and> next_ref (call_listeners_ref ls m)
       = next_ref m + length (call_listeners ls (read_array m (projects_ref m)))
   \<and> delivered (call_listeners_ref ls m)
       = delivered m @ zip (map fst (call_listeners ls (read_array m (projects_ref m))))
                           [next_ref m ..< next_ref m
                              + length (call_listeners ls (read_array m (projects_ref m)))]
   \<and> (\<forall>a < next_ref m. arrays (call_listeners_ref ls m) a = arrays m a)"
proof (induction ls arbitrary: m)
  case Nil
  then show ?case by simp
next
  case (Cons l ls)
  define ps where "ps = read_array m (projects_ref m)"
  define m' where
    "m' = (snd (slice_ref (projects_ref m) m))\<lparr>delivered := delivered m @ [(fst l, next_ref m)]\<rparr>"
  have m': "objects m' = objects m" "projects_ref m' = projects_ref m"
    "listeners_ref m' = listeners_ref m" "next_ref m' = Suc (next_ref m)"
    "delivered m' = delivered m @ [(fst l, next_ref m)]"
    "\<forall>a < next_ref m. arrays m' a = arrays m a"
    by (simp_all add: m'_def slice_ref_def)
  have passed: "read_array m' (next_ref m) = ps"
    by (simp add: m'_def ps_def slice_ref_def read_array_def array_at_def)
  have kept: "read_array m' (projects_ref m') = ps"
    by (simp add: m'_def ps_def slice_ref_def read_array_def array_at_def)
  have "call_listeners_ref (l # ls) m
          = (case snd l (read_array m' (next_ref m)) of
               Returns \<Rightarrow> call_listeners_ref ls m'
             | Throws \<Rightarrow> m')"
    by (simp add: m'_def slice_ref_def Let_def split: outcome.splits)
  then have step: "call_listeners_ref (l # ls) m
                = (case snd l ps of Returns \<Rightarrow> call_listeners_ref ls m' | Throws \<Rightarrow> m')"
    by (simp only: passed)
  show ?case
  proof (cases "snd l ps")
    case Throws
    then have calls: "call_listeners (l # ls) ps = [(fst l, ps, Throws)]"
      by (simp add: slice_def)
    from Throws have res: "call_listeners_ref (l # ls) m = m'"
      by (simp only: step outcome.case)
    show ?thesis
      unfolding res ps_def [symmetric] calls using m' by (simp del: call_listeners.simps)
  next
    case Returns
    then have calls: "call_listeners (l # ls) ps = (fst l, ps, Returns) # call_listeners ls ps"
      by (simp add: slice_def)
    from Returns have res: "call_listeners_ref (l # ls) m = call_listeners_ref ls m'"
      by (simp only: step outcome.case)
    define k where "k = length (call_listeners ls ps)"
    define n where "n = next_ref m"
    have len: "length (call_listeners (l # ls) ps) = Suc k"
      by (simp only: calls k_def list.size(4))
    have up: "[n ..< n + Suc k] = n # [Suc n ..< Suc n + k]"
      by (subst upt_rec) simp
    from Cons.IH [of m'] have ih:
      "objects (call_listeners_ref ls m') = objects m'"
      "projects_ref (call_listeners_ref ls m') = projects_ref m'"
      "listeners_ref (call_listeners_ref ls m') = listeners_ref m'"
      "next_ref (call_listeners_ref ls m') = next_ref m' + k"
      "delivered (call_listeners_ref ls m')
         = delivered m' @ zip (map fst (call_listeners ls ps)) [next_ref m' ..< next_ref m' + k]"
      "\<forall>a < next_ref m'. arrays (call_listeners_ref ls m') a = arrays m' a"
      unfolding kept k_def by blast+
    have same: "objects (call_listeners_ref ls m') = objects m"
      "projects_ref (call_listeners_ref ls m') = projects_ref m"
      "listeners_ref (call_listeners_ref ls m') = listeners_ref m"
      using ih(1-3) m'(1-3) by simp_all
    have nxt: "next_ref (call_listeners_ref ls m') = n + Suc k"
      using ih(4) m'(4) by (simp add: n_def)
    have "delivered (call_listeners_ref ls m')
            = delivered m @ (fst l, n) # zip (map fst (call_listeners ls ps)) [Suc n ..< Suc n + k]"
      unfolding ih(5) m'(4,5) n_def by simp
    also have "\<dots> = delivered m @ zip (fst l # map fst (call_listeners ls ps)) [n ..< n + Suc k]"
      unfolding up by simp
    finally have del: "delivered (call_listeners_ref ls m')
            = delivered m @ zip (map fst (call_listeners (l # ls) ps)) [n ..< n + Suc k]"
      unfolding calls by simp
    have old: "\<forall>a < n. arrays (call_listeners_ref ls m') a = arrays m a"
      using ih(6) m'(4,6) by (simp add: n_def)
    from same nxt del old show ?thesis
      unfolding res ps_def [symmetric] len n_def by blast
  qed
qed

lemma updateListeners_ref_frame:
  "objects (updateListeners_ref m) = objects m
   \<and> projects_ref (updateListeners_ref m) = projects_ref m
   \<and> listeners_ref (updateListeners_ref m) = listeners_ref m
   \<and> next_ref (updateListeners_ref m)
       = next_ref m + length (call_listeners (listeners_ref m) (read_array m (projects_ref m)))
   \<and> delivered (updateListeners_ref m)
       = delivered m
         @ zip (map fst (call_listeners (listeners_ref m) (read_array m (projects_ref m))))
               [next_ref m ..< next_ref m
                  + length (call_listeners (listeners_ref m) (read_array m (projects_ref m)))]
   \<and> (\<forall>a < next_ref m. arrays (updateListeners_ref m) a = arrays m a)"
  unfolding updateListeners_ref_def by (rule call_listeners_ref_frame)

lemma listeners_called_updateListeners_ref:
  "map fst (delivered (updateListeners_ref m))
     = map fst (delivered m)
       @ map fst (call_listeners (listeners_ref m) (read_array m (projects_ref m)))"
proof -
  let ?calls = "call_listeners (listeners_ref m) (read_array m (projects_ref m))"
  have "map fst (zip (map fst ?calls) [next_ref m ..< next_ref m + length ?calls])
          = map fst ?calls"
    by (rule map_fst_zip) simp
  then show ?thesis using updateListeners_ref_frame [of m] by simp
qed

lemma fresh_copies_updateListeners:
  assumes "fresh_copies m"
  shows "fresh_copies (updateListeners_ref m)"
proof -
  define k where
    "k = length (call_listeners (listeners_ref m) (read_array m (projects_ref m)))"
  define names where
    "names = map fst (call_listeners (listeners_ref m) (read_array m (projects_ref m)))"
  let ?zs = "zip names [next_ref m ..< next_ref m + k]"
  have fr: "projects_ref (updateListeners_ref m) = projects_ref m"
    "next_ref (updateListeners_ref m) = next_ref m + k"
    "delivered (updateListeners_ref m) = delivered m @ ?zs"
    using updateListeners_ref_frame [of m] unfolding k_def names_def by blast+
  have snd_zs: "map snd ?zs = [next_ref m ..< next_ref m + k]"
    by (rule map_snd_zip) (simp add: names_def k_def)
  have new: "list_all (\<lambda>c. snd c < next_ref m + k \<and> snd c \<noteq> projects_ref m) ?zs"
    using assms unfolding fresh_copies_def list_all_iff
    by (auto dest!: set_zip_rightD)
  have old: "list_all (\<lambda>c. snd c < next_ref m + k \<and> snd c \<noteq> projects_ref m) (delivered m)"
    using assms unfolding fresh_copies_def list_all_iff by auto
  have disj: "set (map snd (delivered m)) \<inter> set (map snd ?zs) = {}"
    using assms unfolding fresh_copies_def list_all_iff snd_zs by auto
  have dist: "distinct (map snd (delivered m) @ map snd ?zs)"
    using assms disj unfolding fresh_copies_def
    by (simp only: distinct_append snd_zs distinct_upt simp_thms)
  from assms new old dist show ?thesis
    unfolding fresh_copies_def fr by simp
qed

lemma fresh_copies_new: "fresh_copies new_Memory"
  by (simp add: fresh_copies_def new_Memory_def)

lemma fresh_copies_apply:
  assumes "fresh_copies m"
  shows "fresh_copies (apply_operation_ref op m)"
proof (cases op)
  case (AddListener l)
  with assms show ?thesis by (simp add: fresh_copies_def addListener_ref_def)
next
  case (AddProject rnd t d n)
  let ?m = "m\<lparr>objects := (objects m)(next_ref m \<mapsto>
                   \<lparr>id_P = rnd, title = t, description = d, people = n, status = Active\<rparr>),
                next_ref := Suc (next_ref m)\<rparr>"
  let ?m' = "?m\<lparr>arrays := (arrays ?m)(projects_ref ?m \<mapsto>
                   array_at ?m (projects_ref ?m) @ [next_ref m])\<rparr>"
  have "fresh_copies ?m'"
    using assms unfolding fresh_copies_def list_all_iff by auto
  then have "fresh_copies (updateListeners_ref ?m')" by (rule fresh_copies_updateListeners)
  then show ?thesis using AddProject by (simp add: addProject_ref_def Let_def)
next
  case (MoveProject pid s)
  have upd: "fresh_copies (updateListeners_ref (m\<lparr>objects := h\<rparr>))" for h
  proof -
    have "fresh_copies (m\<lparr>objects := h\<rparr>)" using assms by (simp add: fresh_copies_def)
    then show ?thesis by (rule fresh_copies_updateListeners)
  qed
  show ?thesis using MoveProject assms upd
    by (simp add: moveProject_ref_def split: option.splits)
qed

lemma fresh_copies_run: "fresh_copies m \<Longrightarrow> fresh_copies (run_ref ops m)"
  by (induction ops arbitrary: m) (simp_all add: fresh_copies_apply)

lemma assign_array_other:
  "a \<noteq> b \<Longrightarrow> array_at (assign_array a f m) b = array_at m b
     \<and> read_array (assign_array a f m) b = read_array m b"
  by (simp add: assign_array_def array_at_def read_array_def)

lemma fresh_copies_assign_array: "fresh_copies m \<Longrightarrow> fresh_copies (assign_array a f m)"
  by (simp add: fresh_copies_def assign_array_def)

lemma fresh_copies_assign_element: "fresh_copies m \<Longrightarrow> fresh_copies (assign_element a i g m)"
  by (simp add: fresh_copies_def assign_element_def split: option.splits)

lemma fresh_copies_apply_step: "fresh_copies m \<Longrightarrow> fresh_copies (apply_step x m)"
  by (cases x) (simp_all add: fresh_copies_apply fresh_copies_assign_array
      fresh_copies_assign_element)

lemma fresh_copies_run_steps: "fresh_copies m \<Longrightarrow> fresh_copies (run_steps xs m)"
  by (induction xs arbitrary: m) (simp_all add: fresh_copies_apply_step)

text \<open>
  \<^bold>\<open>C3.\<close> The specification has it that nothing a listener does with the array it
  was given, changes to the \<^verbatim>\<open>Project\<close> objects in it included, reaches the store's
  list or the array of another listener. The copy is shallow: the objects are the store's own,
  and the instance after the theorem changes the store's list through
  a delivered array. What holds is the isolation of the array itself: after any steps
  of the store and of the listeners, whatever a listener does to the elements of an
  array it was given, the store's array and what is read through it are unchanged, and
  so are the array passed in every other call and what is read through it.
\<close>

theorem array_mutation_isolated:
  assumes "m = run_steps steps new_Memory"
    and "i < length (delivered m)"
  shows "array_at (assign_array (snd (delivered m ! i)) f m) (projects_ref m)
           = array_at m (projects_ref m)
         \<and> read_array (assign_array (snd (delivered m ! i)) f m) (projects_ref m)
           = read_array m (projects_ref m)
         \<and> (\<forall>j < length (delivered m). j \<noteq> i \<longrightarrow>
              array_at (assign_array (snd (delivered m ! i)) f m) (snd (delivered m ! j))
                = array_at m (snd (delivered m ! j))
              \<and> read_array (assign_array (snd (delivered m ! i)) f m) (snd (delivered m ! j))
                = read_array m (snd (delivered m ! j)))"
proof -
  have inv: "fresh_copies m"
    unfolding assms(1) by (rule fresh_copies_run_steps) (rule fresh_copies_new)
  from inv assms(2) have store: "snd (delivered m ! i) \<noteq> projects_ref m"
    unfolding fresh_copies_def list_all_iff by auto
  have others: "snd (delivered m ! i) \<noteq> snd (delivered m ! j)"
    if "j < length (delivered m)" "j \<noteq> i" for j
  proof -
    from inv have "distinct (map snd (delivered m))" by (simp add: fresh_copies_def)
    with that assms(2) have "map snd (delivered m) ! i \<noteq> map snd (delivered m) ! j"
      using nth_eq_iff_index_eq [of "map snd (delivered m)" i j] by simp
    with that assms(2) show ?thesis by simp
  qed
  from store others show ?thesis
    by (simp add: assign_array_other)
qed

theorem array_mutation_isolated_witness:
  "shared_example = run_steps shared_steps new_Memory
   \<and> (0::nat) < length (delivered shared_example)
   \<and> read_array (assign_array (snd (delivered shared_example ! 0)) (\<lambda>xs. []) shared_example)
        (projects_ref shared_example)
       = read_array shared_example (projects_ref shared_example)
   \<and> read_array (assign_array (snd (delivered shared_example ! 0)) (\<lambda>xs. []) shared_example)
        (snd (delivered shared_example ! 1))
       = read_array shared_example (snd (delivered shared_example ! 1))
   \<and> read_array shared_example (snd (delivered shared_example ! 1)) \<noteq> []"
proof -
  have d: "delivered shared_example = [(1, 2), (2, 3)]"
    by (simp add: shared_example_def shared_steps_def new_Memory_def addListener_ref_def
        addProject_ref_def updateListeners_ref_def slice_ref_def Let_def quiet_def
        read_array_def array_at_def)
  have r: "read_array shared_example 3 \<noteq> []"
    by (simp add: shared_example_def shared_steps_def new_Memory_def addListener_ref_def
        addProject_ref_def updateListeners_ref_def slice_ref_def Let_def read_array_def
        array_at_def quiet_def)
  note reach = shared_example_def
  have len: "0 < length (delivered shared_example)" "1 < length (delivered shared_example)"
    by (simp_all add: d)
  note iso = array_mutation_isolated [OF reach len(1), of "\<lambda>xs. []"]
  from iso have store:
    "read_array (assign_array (snd (delivered shared_example ! 0)) (\<lambda>xs. []) shared_example)
        (projects_ref shared_example)
       = read_array shared_example (projects_ref shared_example)"
    by blast
  from iso len(2) have other:
    "read_array (assign_array (snd (delivered shared_example ! 0)) (\<lambda>xs. []) shared_example)
        (snd (delivered shared_example ! 1))
       = read_array shared_example (snd (delivered shared_example ! 1))"
    by (metis zero_neq_one)
  from r d have r': "read_array shared_example (snd (delivered shared_example ! 1)) \<noteq> []"
    by simp
  from reach len(1) store other r' show ?thesis by blast
qed

text \<open>A listener sets the status of the first project of the array it was given: the
  store's list changes, and so does what the other listener reads in its own array.\<close>

theorem element_mutation_shared_counterexample:
  "read_array (assign_status (snd (delivered shared_example ! 0)) 0 Finished shared_example)
     (projects_ref shared_example)
     \<noteq> read_array shared_example (projects_ref shared_example)
   \<and> read_array (assign_status (snd (delivered shared_example ! 0)) 0 Finished shared_example)
     (snd (delivered shared_example ! 1))
     \<noteq> read_array shared_example (snd (delivered shared_example ! 1))"
  by (simp add: shared_example_def shared_steps_def new_Memory_def addListener_ref_def
        addProject_ref_def updateListeners_ref_def slice_ref_def Let_def read_array_def
        array_at_def assign_status_def assign_element_def quiet_def)

subsection \<open>The two models agree\<close>

text \<open>
  As long as listeners only read, the list read through the store's array evolves under
  the operations on references as the list of the model on values does, with the same
  listeners and the same listeners called.
\<close>

lemma read_refs_all_Some:
  "list_all (\<lambda>r. h r \<noteq> None) rs \<Longrightarrow> read_refs h rs = map (\<lambda>r. the (h r)) rs"
  by (induction rs) auto

lemma read_refs_cong: "\<forall>r \<in> set rs. h r = h' r \<Longrightarrow> read_refs h rs = read_refs h' rs"
  by (induction rs) (auto split: option.splits)

lemma read_refs_append: "read_refs h (rs @ rs') = read_refs h rs @ read_refs h rs'"
  by (induction rs) (auto split: option.splits)

lemma find_has_id:
  "list_all (\<lambda>r. objects m r \<noteq> None) rs \<Longrightarrow>
   find (has_id m pid) rs
     = map_option (\<lambda>i. rs ! i) (find_pos (\<lambda>p. id_P p = pid) (map (\<lambda>r. the (objects m r)) rs))"
  by (induction rs) (auto simp: has_id_def option.map_comp comp_def)

lemma map_update_distinct:
  "distinct rs \<Longrightarrow> i < length rs \<Longrightarrow>
   map (\<lambda>r. the ((h(rs ! i \<mapsto> v)) r)) rs = (map (\<lambda>r. the (h r)) rs)[i := v]"
  by (auto simp: list_eq_iff_nth_eq nth_list_update nth_eq_iff_index_eq)

lemma updateListeners_ref_store:
  assumes "projects_ref m < next_ref m"
  shows "array_at (updateListeners_ref m) (projects_ref m) = array_at m (projects_ref m)"
    and "read_array (updateListeners_ref m) (projects_ref (updateListeners_ref m))
           = read_array m (projects_ref m)"
    and "store_array_ok m \<Longrightarrow> store_array_ok (updateListeners_ref m)"
proof -
  from updateListeners_ref_frame [of m] assms
  have arr: "arrays (updateListeners_ref m) (projects_ref m) = arrays m (projects_ref m)"
    and obj: "objects (updateListeners_ref m) = objects m"
    and pr: "projects_ref (updateListeners_ref m) = projects_ref m"
    and nx: "next_ref m \<le> next_ref (updateListeners_ref m)"
    by auto
  from arr show a: "array_at (updateListeners_ref m) (projects_ref m) = array_at m (projects_ref m)"
    by (simp add: array_at_def)
  from a obj pr show "read_array (updateListeners_ref m) (projects_ref (updateListeners_ref m))
           = read_array m (projects_ref m)"
    by (simp add: read_array_def)
  assume "store_array_ok m"
  with a obj pr nx show "store_array_ok (updateListeners_ref m)"
    unfolding store_array_ok_def list_all_iff by auto
qed

lemma store_array_ok_new: "store_array_ok new_Memory"
  by (simp add: store_array_ok_def new_Memory_def array_at_def)

lemma apply_operation_ref_simulates:
  assumes ok: "store_array_ok m"
    and ps: "read_array m (projects_ref m) = projects st"
    and ls: "listeners_ref m = listeners st"
    and cs: "map fst (delivered m) = map fst (concat (notified st))"
  shows "store_array_ok (apply_operation_ref op m)
         \<and> read_array (apply_operation_ref op m) (projects_ref (apply_operation_ref op m))
             = projects (apply_operation op st)
         \<and> listeners_ref (apply_operation_ref op m) = listeners (apply_operation op st)
         \<and> map fst (delivered (apply_operation_ref op m))
             = map fst (concat (notified (apply_operation op st)))"
proof (cases op)
  case (AddListener l)
  with assms show ?thesis
    by (simp add: addListener_ref_def addListener_def store_array_ok_def read_array_def
        array_at_def)
next
  case (AddProject rnd t d n)
  define new where "new = \<lparr>id_P = rnd, title = t, description = d, people = n, status = Active\<rparr>"
  define m2 where "m2 = m\<lparr>objects := (objects m)(next_ref m \<mapsto> new),
                          next_ref := Suc (next_ref m),
                          arrays := (arrays m)(projects_ref m \<mapsto>
                                      array_at m (projects_ref m) @ [next_ref m])\<rparr>"
  have eq: "addProject_ref rnd t d n m = updateListeners_ref m2"
    by (simp add: addProject_ref_def Let_def m2_def new_def array_at_def)
  have eqv: "projects (addProject rnd t d n st) = projects st @ [new]"
    "listeners (addProject rnd t d n st) = listeners st"
    "map fst (concat (notified (addProject rnd t d n st)))
       = map fst (concat (notified st))
         @ map fst (call_listeners (listeners st) (projects st @ [new]))"
    by (simp_all add: addProject_def updateListeners_def Let_def new_def)
  have m2: "projects_ref m2 = projects_ref m" "listeners_ref m2 = listeners_ref m"
    "delivered m2 = delivered m" "next_ref m2 = Suc (next_ref m)"
    "objects m2 = (objects m)(next_ref m \<mapsto> new)"
    by (simp_all add: m2_def)
  have arr2: "array_at m2 (projects_ref m2) = array_at m (projects_ref m) @ [next_ref m]"
    by (simp add: array_at_def m2_def)
  have old: "\<forall>r \<in> set (array_at m (projects_ref m)). r < next_ref m \<and> objects m r \<noteq> None"
    using ok unfolding store_array_ok_def list_all_iff by blast
  have lt: "projects_ref m2 < next_ref m2" using ok by (simp add: store_array_ok_def m2)
  have ok2: "store_array_ok m2"
    using ok old unfolding store_array_ok_def list_all_iff arr2 by (auto simp: m2)
  have "read_refs (objects m2) (array_at m (projects_ref m))
          = read_refs (objects m) (array_at m (projects_ref m))"
    using old unfolding m2 by (intro read_refs_cong) auto
  then have read2: "read_array m2 (projects_ref m2) = projects st @ [new]"
    using ps unfolding read_array_def arr2 by (simp add: read_refs_append m2)
  note fr = updateListeners_ref_frame [of m2]
  have a: "store_array_ok (updateListeners_ref m2)"
    using ok2 by (rule updateListeners_ref_store(3) [OF lt])
  have b: "read_array (updateListeners_ref m2) (projects_ref (updateListeners_ref m2))
             = projects st @ [new]"
    using updateListeners_ref_store(2) [OF lt] read2 by simp
  have c: "listeners_ref (updateListeners_ref m2) = listeners st"
    using fr ls by (simp add: m2)
  have d: "map fst (delivered (updateListeners_ref m2))
             = map fst (concat (notified st))
               @ map fst (call_listeners (listeners st) (projects st @ [new]))"
    using cs ls read2 by (simp add: listeners_called_updateListeners_ref m2)
  from a b c d eqv show ?thesis unfolding AddProject by (simp add: eq)
next
  case (MoveProject pid s)
  let ?refs = "array_at m (projects_ref m)"
  have some: "list_all (\<lambda>r. objects m r \<noteq> None) ?refs" and dist: "distinct ?refs"
    and lt: "projects_ref m < next_ref m"
    using ok unfolding store_array_ok_def list_all_iff by auto
  have rd: "projects st = map (\<lambda>r. the (objects m r)) ?refs"
    using ps read_refs_all_Some [OF some] by (simp add: read_array_def)
  have fd: "find (has_id m pid) ?refs
              = map_option (\<lambda>i. ?refs ! i) (find_pos (\<lambda>p. id_P p = pid) (projects st))"
    unfolding rd by (rule find_has_id [OF some])
  show ?thesis
  proof (cases "find_pos (\<lambda>p. id_P p = pid) (projects st)")
    case None
    with fd assms show ?thesis unfolding MoveProject
      by (simp add: moveProject_ref_def moveProject_def)
  next
    case (Some i)
    from find_pos_Some [OF Some] have i: "i < length ?refs" by (simp add: rd)
    with some have "objects m (?refs ! i) \<noteq> None" by (simp add: list_all_length)
    then obtain p where p: "objects m (?refs ! i) = Some p" by blast
    with i have pi: "projects st ! i = p" by (simp add: rd)
    show ?thesis
    proof (cases "status p = s")
      case True
      with fd Some p pi assms show ?thesis unfolding MoveProject
        by (simp add: moveProject_ref_def moveProject_def)
    next
      case False
      define m1 where "m1 = m\<lparr>objects := (objects m)(?refs ! i \<mapsto> p\<lparr>status := s\<rparr>)\<rparr>"
      have eq: "moveProject_ref pid s m = updateListeners_ref m1"
        using fd Some p False by (simp add: moveProject_ref_def m1_def)
      have eqv: "projects (moveProject pid s st) = (projects st)[i := p\<lparr>status := s\<rparr>]"
        "listeners (moveProject pid s st) = listeners st"
        "map fst (concat (notified (moveProject pid s st)))
           = map fst (concat (notified st))
             @ map fst (call_listeners (listeners st) ((projects st)[i := p\<lparr>status := s\<rparr>]))"
        using Some pi False
        by (simp_all add: moveProject_def Let_def updateListeners_def)
      have m1: "projects_ref m1 = projects_ref m" "listeners_ref m1 = listeners_ref m"
        "delivered m1 = delivered m" "next_ref m1 = next_ref m"
        "objects m1 = (objects m)(?refs ! i \<mapsto> p\<lparr>status := s\<rparr>)"
        by (simp_all add: m1_def)
      have arr1: "array_at m1 (projects_ref m1) = ?refs" by (simp add: array_at_def m1_def)
      have some1: "list_all (\<lambda>r. objects m1 r \<noteq> None) ?refs"
        using some unfolding list_all_iff m1 by auto
      have ok1: "store_array_ok m1"
        using ok some1 unfolding store_array_ok_def arr1 list_all_iff by (auto simp: m1(1,4))
      have "read_array m1 (projects_ref m1) = map (\<lambda>r. the (objects m1 r)) ?refs"
        unfolding read_array_def arr1 by (rule read_refs_all_Some [OF some1])
      also have "\<dots> = (projects st)[i := p\<lparr>status := s\<rparr>]"
        unfolding rd m1 by (rule map_update_distinct [OF dist i])
      finally have read1:
        "read_array m1 (projects_ref m1) = (projects st)[i := p\<lparr>status := s\<rparr>]" .
      have lt1: "projects_ref m1 < next_ref m1" using lt by (simp add: m1)
      note fr = updateListeners_ref_frame [of m1]
      have a: "store_array_ok (updateListeners_ref m1)"
        using ok1 by (rule updateListeners_ref_store(3) [OF lt1])
      have b: "read_array (updateListeners_ref m1) (projects_ref (updateListeners_ref m1))
                 = (projects st)[i := p\<lparr>status := s\<rparr>]"
        using updateListeners_ref_store(2) [OF lt1] read1 by simp
      have c: "listeners_ref (updateListeners_ref m1) = listeners st"
        using fr ls by (simp add: m1)
      have d: "map fst (delivered (updateListeners_ref m1))
                 = map fst (concat (notified st))
                   @ map fst (call_listeners (listeners st)
                                ((projects st)[i := p\<lparr>status := s\<rparr>]))"
        using cs ls read1 by (simp add: listeners_called_updateListeners_ref m1)
      from a b c d eqv show ?thesis unfolding MoveProject by (simp add: eq)
    qed
  qed
qed

lemma run_ref_simulates:
  assumes "store_array_ok m"
    and "read_array m (projects_ref m) = projects st"
    and "listeners_ref m = listeners st"
    and "map fst (delivered m) = map fst (concat (notified st))"
  shows "store_array_ok (run_ref ops m)
         \<and> read_array (run_ref ops m) (projects_ref (run_ref ops m)) = projects (run ops st)
         \<and> listeners_ref (run_ref ops m) = listeners (run ops st)
         \<and> map fst (delivered (run_ref ops m)) = map fst (concat (notified (run ops st)))"
  using assms
proof (induction ops arbitrary: m st)
  case Nil
  then show ?case by simp
next
  case (Cons op ops)
  from apply_operation_ref_simulates [OF Cons.prems, of op] Cons.IH show ?case by simp
qed

lemma run_ref_new_simulates:
  "read_array (run_ref ops new_Memory) (projects_ref (run_ref ops new_Memory))
     = projects (run ops new_ProjectState)
   \<and> listeners_ref (run_ref ops new_Memory) = listeners (run ops new_ProjectState)
   \<and> map fst (delivered (run_ref ops new_Memory))
       = map fst (concat (notified (run ops new_ProjectState)))"
proof -
  have "read_array new_Memory (projects_ref new_Memory) = projects new_ProjectState"
    "listeners_ref new_Memory = listeners new_ProjectState"
    "map fst (delivered new_Memory) = map fst (concat (notified new_ProjectState))"
    by (simp_all add: new_Memory_def new_ProjectState_def read_array_def array_at_def)
  from run_ref_simulates [OF store_array_ok_new this] show ?thesis by blast
qed

end
